theory Spec2Isabelle
  imports Main
begin

section \<open>The transaction orchestrator of database.ts\<close>

text \<open>
  The driver (package pg) is not part of the repository. Its \<open>client.query\<close> returns a
  promise; what the model keeps of a promise is how it settles. A statement that fails is a
  promise that rejects.
\<close>

datatype 'e outcome = Fulfilled | Rejected 'e

text \<open>
  The checked-out connection (\<open>PoolClient\<close>), as far as the orchestrator can change it:
  the statements sent on it, oldest first; how often it was handed back to the pool; and the
  rejections of promises that no code awaits or returns (JavaScript reports those as
  unhandled rejections, they reach no caller).
\<close>

record 'e PoolClient =
  statements :: "string list"
  released :: nat
  unhandled :: "'e list"

text \<open>
  The driver is a parameter: from the statements sent so far and the next statement, how
  the promise of that statement settles.
\<close>

type_synonym 'e driver = "string list \<Rightarrow> string \<Rightarrow> 'e outcome"

definition client_query :: "'e driver \<Rightarrow> string \<Rightarrow> 'e PoolClient \<Rightarrow> 'e outcome \<times> 'e PoolClient" where
  "client_query drv q c = (drv (statements c) q, c\<lparr>statements := statements c @ [q]\<rparr>)"

text \<open>
  \<^verbatim>\<open>async commit() { this.#client.query("commit") }\<close>: the statement is sent, its promise is
  neither awaited nor returned, and the promise of \<open>commit\<close> itself fulfils. A rejection of
  the statement's promise is left unhandled. \<open>rollback\<close> is written the same way.
\<close>

definition commit :: "'e driver \<Rightarrow> 'e PoolClient \<Rightarrow> 'e outcome \<times> 'e PoolClient" where
  "commit drv c =
     (case client_query drv ''commit'' c of
        (Fulfilled, c') \<Rightarrow> (Fulfilled, c')
      | (Rejected e, c') \<Rightarrow> (Fulfilled, c'\<lparr>unhandled := unhandled c' @ [e]\<rparr>))"

definition rollback :: "'e driver \<Rightarrow> 'e PoolClient \<Rightarrow> 'e outcome \<times> 'e PoolClient" where
  "rollback drv c =
     (case client_query drv ''rollback'' c of
        (Fulfilled, c') \<Rightarrow> (Fulfilled, c')
      | (Rejected e, c') \<Rightarrow> (Fulfilled, c'\<lparr>unhandled := unhandled c' @ [e]\<rparr>))"

definition release :: "'e PoolClient \<Rightarrow> 'e PoolClient" where
  "release c = c\<lparr>released := released c + 1\<rparr>"

text \<open>
  The \<open>catch (err)\<close> block: \<open>await tx.rollback()\<close>, then \<open>throw err\<close>. Were the awaited
  promise to reject, that rejection would leave the block in place of \<open>err\<close>.
\<close>

definition catch_block :: "'e driver \<Rightarrow> 'e \<Rightarrow> 'e PoolClient \<Rightarrow> 'e outcome \<times> 'e PoolClient" where
  "catch_block drv err c =
     (case rollback drv c of
        (Fulfilled, c') \<Rightarrow> (Rejected err, c')
      | (Rejected err', c') \<Rightarrow> (Rejected err', c'))"

text \<open>
  The \<open>try\<close> block with its \<open>catch\<close>: \<open>await callback(tx)\<close>, then \<open>await tx.commit()\<close>. The
  callback is any function of the connection that settles one way or the other.
\<close>

definition try_catch ::
  "'e driver \<Rightarrow> ('e PoolClient \<Rightarrow> 'e outcome \<times> 'e PoolClient) \<Rightarrow> 'e PoolClient
    \<Rightarrow> 'e outcome \<times> 'e PoolClient" where
  "try_catch drv callback c =
     (case callback c of
        (Rejected err, c1) \<Rightarrow> catch_block drv err c1
      | (Fulfilled, c1) \<Rightarrow>
          (case commit drv c1 of
             (Rejected err, c2) \<Rightarrow> catch_block drv err c2
           | (Fulfilled, c2) \<Rightarrow> (Fulfilled, c2)))"

text \<open>
  \<open>Database.transaction\<close>: \<open>await this.#pool.connect()\<close> and \<open>await handle.query("begin")\<close>
  stand before the \<open>try\<close>; \<open>finally { tx.release() }\<close> runs however the \<open>try\<close> and the
  \<open>catch\<close> end. \<open>connect\<close> is how the pool's promise of a connection settles, \<open>c\<close> the
  connection it hands out.
\<close>

definition transaction ::
  "'e outcome \<Rightarrow> 'e driver \<Rightarrow> ('e PoolClient \<Rightarrow> 'e outcome \<times> 'e PoolClient) \<Rightarrow> 'e PoolClient
    \<Rightarrow> 'e outcome \<times> 'e PoolClient" where
  "transaction connect drv callback c =
     (case connect of
        Rejected e \<Rightarrow> (Rejected e, c)
      | Fulfilled \<Rightarrow>
          (case client_query drv ''begin'' c of
             (Rejected e, c1) \<Rightarrow> (Rejected e, c1)
           | (Fulfilled, c1) \<Rightarrow>
               (case try_catch drv callback c1 of (r, c2) \<Rightarrow> (r, release c2))))"

text \<open>A fresh connection, a driver that fails exactly the statements of a given list, and
  callbacks that send two inserts and then settle.\<close>

definition fresh :: "string PoolClient" where
  "fresh = \<lparr>statements = [], released = 0, unhandled = []\<rparr>"

definition failing :: "string list \<Rightarrow> string driver" where
  "failing bad sent q = (if q \<in> set bad then Rejected (q @ '' failed'') else Fulfilled)"

definition inserts_then :: "string outcome \<Rightarrow> string PoolClient \<Rightarrow> string outcome \<times> string PoolClient" where
  "inserts_then r c = (r, c\<lparr>statements := statements c @ [''insert 1'', ''insert 2'']\<rparr>)"


section \<open>The placeholder compiler \<open>named\<close>\<close>

subsection \<open>Values\<close>

text \<open>
  A JavaScript value as far as \<open>named\<close> tells values apart (\<open>=== undefined\<close>,
  \<open>=== null\<close>, \<open>typeof ... == "number"\<close>, \<open>instanceof Date\<close>, \<open>Array.isArray\<close>, and
  \<open>toString()\<close> for the rest). A number is an integer here, of a magnitude that JavaScript
  holds exactly and prints in plain decimal digits; the compiler does no arithmetic on it. A \<open>JSDate\<close> is a valid date, given by what its \<open>toISOString()\<close> returns; a
  \<open>JSObject\<close> is any value of no other kind (a boolean, an object with a \<open>toString\<close>
  method), given by what its \<open>toString()\<close> returns. Strings are sequences of 8-bit
  characters.
\<close>

datatype jsvalue =
    JSUndefined
  | JSNull
  | JSNumber int
  | JSString string
  | JSDate string
  | JSArray "jsvalue list"
  | JSObject string

text \<open>
  \<open>NamedArgs\<close>: the argument object, as the map of its own properties. It is a plain object
  (an object literal or a spread, as every caller in the repository passes), so its
  prototype is \<open>Object.prototype\<close>.
\<close>

type_synonym NamedArgs = "string \<rightharpoonup> jsvalue"

text \<open>
  The members of \<open>Object.prototype\<close>, which a property read finds on any plain object that
  has no own property of that name: eleven built-in functions, and the accessor \<open>__proto__\<close>
  that yields \<open>Object.prototype\<close> itself. None of them is a number, a \<open>Date\<close> or an array;
  each is given by what its \<open>toString()\<close> returns, as Node.js prints it.
\<close>

definition Object_prototype :: "string \<rightharpoonup> jsvalue" where
  "Object_prototype = map_of
     [(''constructor'', JSObject ''function Object() { [native code] }''),
      (''__defineGetter__'', JSObject ''function __defineGetter__() { [native code] }''),
      (''__defineSetter__'', JSObject ''function __defineSetter__() { [native code] }''),
      (''hasOwnProperty'', JSObject ''function hasOwnProperty() { [native code] }''),
      (''__lookupGetter__'', JSObject ''function __lookupGetter__() { [native code] }''),
      (''__lookupSetter__'', JSObject ''function __lookupSetter__() { [native code] }''),
      (''isPrototypeOf'', JSObject ''function isPrototypeOf() { [native code] }''),
      (''propertyIsEnumerable'', JSObject ''function propertyIsEnumerable() { [native code] }''),
      (''toString'', JSObject ''function toString() { [native code] }''),
      (''valueOf'', JSObject ''function valueOf() { [native code] }''),
      (''__proto__'', JSObject ''[object Object]''),
      (''toLocaleString'', JSObject ''function toLocaleString() { [native code] }'')]"

text \<open>
  \<open>ParamType\<close>, as the values that reach \<open>paramArray\<close> at run time: an array is pushed as it
  is, whatever it holds.
\<close>

datatype ParamType = PNull | PNumber int | PText string | PArray "jsvalue list"

record NamedQueryResult =
  preparedQuery :: string
  params :: "ParamType list"

datatype error = MissingArgumentError string

subsection \<open>Scanning the template\<close>

text \<open>The character classes \<open>[a-zA-Z_]\<close> and \<open>[a-zA-Z0-9_]\<close> of the regular expressions.\<close>

definition ident_start :: "char \<Rightarrow> bool" where
  "ident_start c \<longleftrightarrow> c \<in> set ''abcdefghijklmnopqrstuvwxyzABCDEFGHIJKLMNOPQRSTUVWXYZ_''"

definition ident_char :: "char \<Rightarrow> bool" where
  "ident_char c \<longleftrightarrow> ident_start c \<or> c \<in> set ''0123456789''"

definition starts_ident :: "string \<Rightarrow> bool" where
  "starts_ident s = (case s of [] \<Rightarrow> False | c # _ \<Rightarrow> ident_start c)"

text \<open>
  \<^verbatim>\<open>[...query.matchAll(/\$([a-zA-Z_][a-zA-Z0-9_]*)/g)].map((match) => match[0].slice(1))\<close>:
  the matches from left to right, none overlapping, each as long as it can be, without the
  leading dollar sign.
\<close>

function matchAll :: "string \<Rightarrow> string list" where
  "matchAll [] = []"
| "matchAll (c # cs) =
     (if c = CHR ''$'' \<and> starts_ident cs
      then takeWhile ident_char cs # matchAll (dropWhile ident_char cs)
      else matchAll cs)"
  by pat_completeness auto
termination
  by (relation "measure length") (auto simp: length_dropWhile_le less_Suc_eq_le)

text \<open>
  \<open>new Set(params)\<close>, as the sequence in which \<open>for (const param of paramsSet)\<close> visits it:
  an element is added at the end unless it is there already.
\<close>

definition set_add :: "'a list \<Rightarrow> 'a \<Rightarrow> 'a list" where
  "set_add s x = (if x \<in> set s then s else s @ [x])"

definition new_Set :: "'a list \<Rightarrow> 'a list" where
  "new_Set xs = foldl set_add [] xs"

text \<open>
  The property read \<open>args[param]\<close>: the own property where there is one, else the member of
  \<open>Object.prototype\<close> of that name, else \<open>undefined\<close>.
\<close>

definition lookup :: "NamedArgs \<Rightarrow> string \<Rightarrow> jsvalue" where
  "lookup args param =
     (case args param of
        Some v \<Rightarrow> v
      | None \<Rightarrow> (case Object_prototype param of Some v \<Rightarrow> v | None \<Rightarrow> JSUndefined))"

subsection \<open>Rewriting the template\<close>

text \<open>The decimal digits of \<open>idx\<close>, as the template literal \<^verbatim>\<open>`$${idx}`\<close> writes them.\<close>

function show_nat :: "nat \<Rightarrow> string" where
  "show_nat n =
     (if n < 10 then [''0123456789'' ! n]
      else show_nat (n div 10) @ [''0123456789'' ! (n mod 10)])"
  by pat_completeness auto
termination
  by (relation "measure id") auto

declare show_nat.simps [simp del]

text \<open>The lookahead \<^verbatim>\<open>(?=\W|$)\<close>: a character outside \<open>[a-zA-Z0-9_]\<close>, or the end.\<close>

definition lookahead :: "string \<Rightarrow> bool" where
  "lookahead s = (case s of [] \<Rightarrow> True | c # _ \<Rightarrow> \<not> ident_char c)"

text \<open>
  main.ts: \<^verbatim>\<open>query.replaceAll(new RegExp(`\\$${param}(?=\\W|$)`, "g"), `$${idx}`)\<close>. Every
  match of the dollar sign, the name and the lookahead, from left to right, gives way to the
  replacement. The pattern has no capture group, so the replacement \<open>$1\<close>, \<open>$2\<close>, ... is
  taken as it is written.
\<close>

function replaceAll_pattern :: "string \<Rightarrow> string \<Rightarrow> string \<Rightarrow> string" where
  "replaceAll_pattern param rep [] = []"
| "replaceAll_pattern param rep (c # cs) =
     (if c = CHR ''$'' \<and> take (length param) cs = param \<and> lookahead (drop (length param) cs)
      then rep @ replaceAll_pattern param rep (drop (length param) cs)
      else c # replaceAll_pattern param rep cs)"
  by pat_completeness auto
termination
  by (relation "measure (\<lambda>(param, rep, s). length s)") auto

text \<open>
  database.ts: \<^verbatim>\<open>query.replaceAll(`$${param}`, `$${idx}`)\<close>. Every occurrence of the dollar
  sign and the name, from left to right, whatever follows it. A string pattern captures
  nothing, so here too the replacement is taken as it is written.
\<close>

function replaceAll_literal :: "string \<Rightarrow> string \<Rightarrow> string \<Rightarrow> string" where
  "replaceAll_literal param rep [] = []"
| "replaceAll_literal param rep (c # cs) =
     (if c = CHR ''$'' \<and> take (length param) cs = param
      then rep @ replaceAll_literal param rep (drop (length param) cs)
      else c # replaceAll_literal param rep cs)"
  by pat_completeness auto
termination
  by (relation "measure (\<lambda>(param, rep, s). length s)") auto

text \<open>
  \<open>String.prototype.trim\<close>: white space and line terminators, among 8-bit characters.
\<close>

definition is_space :: "char \<Rightarrow> bool" where
  "is_space c \<longleftrightarrow> c \<in> set [CHR 0x09, CHR 0x0A, CHR 0x0B, CHR 0x0C, CHR 0x0D, CHR 0x20, CHR 0xA0]"

definition trim :: "string \<Rightarrow> string" where
  "trim s = rev (dropWhile is_space (rev (dropWhile is_space s)))"

subsection \<open>The parameters\<close>

text \<open>
  main.ts, the end of one turn of the loop:
  \<^verbatim>\<open>if (paramValue === null) { paramArray.push(null) }\<close> and then
  \<^verbatim>\<open>if (paramValue != null) { ... }\<close> with its chain \<open>typeof paramValue == "number"\<close>,
  \<open>paramValue instanceof Date\<close>, \<open>Array.isArray(paramValue)\<close>, else \<open>toString()\<close>. The loose
  \<open>!= null\<close> is false of \<open>null\<close> and of \<open>undefined\<close>.
\<close>

definition push :: "ParamType list \<Rightarrow> jsvalue \<Rightarrow> ParamType list" where
  "push paramArray paramValue =
     (let paramArray' = (if paramValue = JSNull then paramArray @ [PNull] else paramArray)
      in if paramValue \<noteq> JSNull \<and> paramValue \<noteq> JSUndefined
         then (case paramValue of
                 JSNumber n \<Rightarrow> paramArray' @ [PNumber n]
               | JSDate d \<Rightarrow> paramArray' @ [PText d]
               | JSArray vs \<Rightarrow> paramArray' @ [PArray vs]
               | JSString s \<Rightarrow> paramArray' @ [PText s]
               | JSObject s \<Rightarrow> paramArray' @ [PText s]
               | _ \<Rightarrow> paramArray')
         else paramArray')"

text \<open>
  \<open>Number.prototype.toString\<close> on an integer (below \<open>10^21\<close> in magnitude): its decimal
  digits, with a minus sign when negative.
\<close>

definition show_int :: "int \<Rightarrow> string" where
  "show_int i = (if i < 0 then CHR ''-'' # show_nat (nat (- i)) else show_nat (nat i))"

text \<open>
  database.ts, the same place: the chain has no branch for numbers, so a number falls to
  \<open>toString()\<close> like anything else that is neither a \<open>Date\<close> nor an array.
\<close>

definition database_push :: "ParamType list \<Rightarrow> jsvalue \<Rightarrow> ParamType list" where
  "database_push paramArray paramValue =
     (let paramArray' = (if paramValue = JSNull then paramArray @ [PNull] else paramArray)
      in if paramValue \<noteq> JSNull \<and> paramValue \<noteq> JSUndefined
         then (case paramValue of
                 JSDate d \<Rightarrow> paramArray' @ [PText d]
               | JSArray vs \<Rightarrow> paramArray' @ [PArray vs]
               | JSNumber n \<Rightarrow> paramArray' @ [PText (show_int n)]
               | JSString s \<Rightarrow> paramArray' @ [PText s]
               | JSObject s \<Rightarrow> paramArray' @ [PText s]
               | _ \<Rightarrow> paramArray')
         else paramArray')"

subsection \<open>The compiler\<close>

text \<open>
  The loop \<open>for (const param of paramsSet)\<close> of main.ts, with its variables \<open>query\<close>,
  \<open>paramArray\<close> and \<open>idx\<close>; \<open>throw new MissingArgumentError(param)\<close> ends it.
\<close>

fun named_loop ::
  "NamedArgs \<Rightarrow> string list \<Rightarrow> string \<Rightarrow> ParamType list \<Rightarrow> nat \<Rightarrow> error + string \<times> ParamType list" where
  "named_loop args [] query paramArray idx = Inr (query, paramArray)"
| "named_loop args (param # rest) query paramArray idx =
     (let paramValue = lookup args param in
      if paramValue = JSUndefined then Inl (MissingArgumentError param)
      else named_loop args rest
             (replaceAll_pattern param (CHR ''$'' # show_nat idx) query)
             (push paramArray paramValue)
             (idx + 1))"

text \<open>\<open>named\<close> of main.ts.\<close>

definition named :: "string \<Rightarrow> NamedArgs \<Rightarrow> error + NamedQueryResult" where
  "named query args =
     (case named_loop args (new_Set (matchAll query)) query [] 1 of
        Inl e \<Rightarrow> Inl e
      | Inr (query', paramArray) \<Rightarrow> Inr \<lparr>preparedQuery = trim query', params = paramArray\<rparr>)"

text \<open>
  \<open>named\<close> of database.ts: the same loop with the plain \<open>replaceAll\<close> and without the branch
  for numbers.
\<close>

fun database_named_loop ::
  "NamedArgs \<Rightarrow> string list \<Rightarrow> string \<Rightarrow> ParamType list \<Rightarrow> nat \<Rightarrow> error + string \<times> ParamType list" where
  "database_named_loop args [] query paramArray idx = Inr (query, paramArray)"
| "database_named_loop args (param # rest) query paramArray idx =
     (let paramValue = lookup args param in
      if paramValue = JSUndefined then Inl (MissingArgumentError param)
      else database_named_loop args rest
             (replaceAll_literal param (CHR ''$'' # show_nat idx) query)
             (database_push paramArray paramValue)
             (idx + 1))"

definition database_named :: "string \<Rightarrow> NamedArgs \<Rightarrow> error + NamedQueryResult" where
  "database_named query args =
     (case database_named_loop args (new_Set (matchAll query)) query [] 1 of
        Inl e \<Rightarrow> Inl e
      | Inr (query', paramArray) \<Rightarrow> Inr \<lparr>preparedQuery = trim query', params = paramArray\<rparr>)"

subsection \<open>What the specification speaks of\<close>

text \<open>A name is missing: absent from the arguments, or bound to \<open>undefined\<close>.\<close>

definition missing :: "NamedArgs \<Rightarrow> string \<Rightarrow> bool" where
  "missing args n \<longleftrightarrow> args n = None \<or> args n = Some JSUndefined"

text \<open>
  The rewrite in one pass from left to right: each placeholder (a dollar sign and the
  longest identifier after it) gives way to \<open>f\<close> of its name, every other character
  stays.
\<close>

function substitute :: "(string \<Rightarrow> string) \<Rightarrow> string \<Rightarrow> string" where
  "substitute f [] = []"
| "substitute f (c # cs) =
     (if c = CHR ''$'' \<and> starts_ident cs
      then f (takeWhile ident_char cs) @ substitute f (dropWhile ident_char cs)
      else c # substitute f cs)"
  by pat_completeness auto
termination
  by (relation "measure (\<lambda>(f, s). length s)") (auto simp: length_dropWhile_le less_Suc_eq_le)

text \<open>The position at which an element first stands in a list, counted from 0.\<close>

fun index_of :: "'a list \<Rightarrow> 'a \<Rightarrow> nat" where
  "index_of [] x = 0"
| "index_of (y # ys) x = (if x = y then 0 else Suc (index_of ys x))"

text \<open>The positional marker of a name: a dollar sign and its position, counted from 1.\<close>

definition marker :: "string list \<Rightarrow> string \<Rightarrow> string" where
  "marker names n = CHR ''$'' # show_nat (Suc (index_of names n))"

text \<open>An identifier, and a positional marker (a dollar sign and digits).\<close>

definition is_ident :: "string \<Rightarrow> bool" where
  "is_ident n \<longleftrightarrow> starts_ident n \<and> (\<forall>c \<in> set n. ident_char c)"

definition positional :: "string \<Rightarrow> bool" where
  "positional x =
     (case x of [] \<Rightarrow> False
      | c # ds \<Rightarrow> c = CHR ''$'' \<and> ds \<noteq> [] \<and> list_all (\<lambda>d. d \<in> set ''0123456789'') ds)"

text \<open>The distinct elements of a list, each where it first stands.\<close>

fun dedup :: "'a list \<Rightarrow> 'a list" where
  "dedup [] = []"
| "dedup (x # xs) = x # filter (\<lambda>y. y \<noteq> x) (dedup xs)"

text \<open>What one turn of the loop of main.ts adds to the parameters, by the kind of value.\<close>

fun pushed :: "jsvalue \<Rightarrow> ParamType list" where
  "pushed JSUndefined = []"
| "pushed JSNull = [PNull]"
| "pushed (JSNumber n) = [PNumber n]"
| "pushed (JSDate d) = [PText d]"
| "pushed (JSArray vs) = [PArray vs]"
| "pushed (JSString s) = [PText s]"
| "pushed (JSObject s) = [PText s]"

text \<open>
  The parameter of a value in the specification's words: null for null, the ISO-8601
  string of a date, an array as it is, the textual representation of anything else.
\<close>

fun textual :: "jsvalue \<Rightarrow> ParamType list" where
  "textual JSUndefined = []"
| "textual JSNull = [PNull]"
| "textual (JSDate d) = [PText d]"
| "textual (JSArray vs) = [PArray vs]"
| "textual (JSNumber n) = [PText (show_int n)]"
| "textual (JSString s) = [PText s]"
| "textual (JSObject s) = [PText s]"

text \<open>
  The shapes of \<open>ParamValue\<close> in the specification's words: null, text, numeric, an array
  of text, an array of numerics.
\<close>

fun is_text :: "jsvalue \<Rightarrow> bool" where
  "is_text (JSString s) = True"
| "is_text v = False"

fun is_numeric :: "jsvalue \<Rightarrow> bool" where
  "is_numeric (JSNumber n) = True"
| "is_numeric v = False"

fun permitted :: "ParamType \<Rightarrow> bool" where
  "permitted PNull = True"
| "permitted (PText s) = True"
| "permitted (PNumber n) = True"
| "permitted (PArray vs) = (list_all is_text vs \<or> list_all is_numeric vs)"

subsection \<open>Templates and arguments to run the compiler on\<close>

definition q_any :: string where
  "q_any = ''select * from users where id = any($ids) and role = $role and x = $ids''"

definition a_any :: NamedArgs where
  "a_any = [''ids'' \<mapsto> JSArray [JSNumber 10, JSNumber 20], ''role'' \<mapsto> JSString ''user'']"

definition q_types :: string where
  "q_types = ''select * from t where a = $a and b = $b and c = $c and d = any($d) and e = $e and f = $f''"

definition a_types :: NamedArgs where
  "a_types = [''a'' \<mapsto> JSNull, ''b'' \<mapsto> JSNumber 30, ''c'' \<mapsto> JSDate ''2024-05-06T07:08:09.000Z'',
              ''d'' \<mapsto> JSArray [JSNumber 3, JSNumber 4], ''e'' \<mapsto> JSString ''admin'',
              ''f'' \<mapsto> JSObject ''true'']"

definition r_types :: NamedQueryResult where
  "r_types = \<lparr>preparedQuery =
        ''select * from t where a = $1 and b = $2 and c = $3 and d = any($4) and e = $5 and f = $6'',
      params = [PNull, PNumber 30, PText ''2024-05-06T07:08:09.000Z'',
                PArray [JSNumber 3, JSNumber 4], PText ''admin'', PText ''true'']\<rparr>"

section \<open>Transactions: what the orchestrator does\<close>

lemma commit_always_fulfils: "fst (commit drv c) = Fulfilled"
  by (simp add: commit_def client_query_def split: outcome.splits)

lemma rollback_always_fulfils: "fst (rollback drv c) = Fulfilled"
  by (simp add: rollback_def client_query_def split: outcome.splits)

lemma commit_statements: "statements (snd (commit drv c)) = statements c @ [''commit'']"
  by (simp add: commit_def client_query_def split: outcome.splits)

lemma rollback_statements: "statements (snd (rollback drv c)) = statements c @ [''rollback'']"
  by (simp add: rollback_def client_query_def split: outcome.splits)

lemma commit_released: "released (snd (commit drv c)) = released c"
  by (simp add: commit_def client_query_def split: outcome.splits)

lemma rollback_released: "released (snd (rollback drv c)) = released c"
  by (simp add: rollback_def client_query_def split: outcome.splits)

lemma catch_block_eq: "catch_block drv err c = (Rejected err, snd (rollback drv c))"
  using rollback_always_fulfils [of drv c]
  by (cases "rollback drv c") (simp add: catch_block_def)

lemma try_catch_fulfilled:
  "callback c = (Fulfilled, c1) \<Longrightarrow> try_catch drv callback c = (Fulfilled, snd (commit drv c1))"
  using commit_always_fulfils [of drv c1]
  by (cases "commit drv c1") (simp add: try_catch_def)

lemma try_catch_rejected:
  "callback c = (Rejected err, c1) \<Longrightarrow> try_catch drv callback c = (Rejected err, snd (rollback drv c1))"
  by (simp add: try_catch_def catch_block_eq)

text \<open>
  When the callback fulfils, the commit statement is sent and the transaction fulfils,
  whatever became of the commit statement.
\<close>

lemma transaction_work_fulfilled:
  assumes "drv (statements c) ''begin'' = Fulfilled"
    and "callback (snd (client_query drv ''begin'' c)) = (Fulfilled, c1)"
  shows "transaction Fulfilled drv callback c = (Fulfilled, release (snd (commit drv c1)))"
  using assms try_catch_fulfilled [of callback "snd (client_query drv ''begin'' c)" c1 drv]
  by (simp add: transaction_def client_query_def)

text \<open>
  A failure of \<open>begin\<close> leaves the function before the \<open>try\<close>: the connection is
  not handed back.
\<close>

lemma transaction_begin_rejected:
  assumes "drv (statements c) ''begin'' = Rejected e"
  shows "transaction Fulfilled drv callback c = (Rejected e, c\<lparr>statements := statements c @ [''begin'']\<rparr>)"
  using assms by (simp add: transaction_def client_query_def)

text \<open>
  C1. When the work callback completes normally the commit statement is sent, and a failure
  of the commit statement should reach the caller of the transaction. At this input the
  callback fulfils and the driver rejects the commit statement: the commit statement is
  sent, yet the transaction fulfils, and the rejection is left unhandled.
\<close>

theorem transaction_commit_failure_not_propagated:
  "transaction Fulfilled (failing [''commit'']) (inserts_then Fulfilled) fresh =
     (Fulfilled,
      \<lparr>statements = [''begin'', ''insert 1'', ''insert 2'', ''commit''],
       released = 1,
       unhandled = [''commit failed'']\<rparr>)"
  by (simp add: transaction_def try_catch_def commit_def client_query_def release_def
      failing_def inserts_then_def fresh_def)

text \<open>
  C7. When the work callback fails, the rollback statement is sent, right after what the
  callback sent, and the transaction then fails with the callback's own error, whether the
  rollback statement succeeds or fails.
\<close>

theorem transaction_rollback_reraises_original:
  assumes "drv (statements c) ''begin'' = Fulfilled"
    and "callback (snd (client_query drv ''begin'' c)) = (Rejected err, c1)"
  shows "fst (transaction Fulfilled drv callback c) = Rejected err
       \<and> statements (snd (transaction Fulfilled drv callback c)) = statements c1 @ [''rollback'']"
  using assms try_catch_rejected [of callback "snd (client_query drv ''begin'' c)" err c1 drv]
  by (simp add: transaction_def client_query_def release_def rollback_statements)

theorem transaction_rollback_reraises_original_witness:
  "failing [''rollback''] (statements fresh) ''begin'' = Fulfilled
   \<and> inserts_then (Rejected ''boom'') (snd (client_query (failing [''rollback'']) ''begin'' fresh))
       = (Rejected ''boom'',
          \<lparr>statements = [''begin'', ''insert 1'', ''insert 2''], released = 0, unhandled = []\<rparr>)
   \<and> failing [''rollback''] [''begin'', ''insert 1'', ''insert 2''] ''rollback''
       = Rejected ''rollback failed''
   \<and> fst (transaction Fulfilled (failing [''rollback'']) (inserts_then (Rejected ''boom'')) fresh)
       = Rejected ''boom''
   \<and> statements (snd (transaction Fulfilled (failing [''rollback''])
         (inserts_then (Rejected ''boom'')) fresh))
       = [''begin'', ''insert 1'', ''insert 2'', ''rollback'']"
proof -
  have b: "failing [''rollback''] (statements fresh) ''begin'' = Fulfilled"
    by (simp add: failing_def)
  have w: "inserts_then (Rejected ''boom'') (snd (client_query (failing [''rollback'']) ''begin'' fresh))
       = (Rejected ''boom'',
          \<lparr>statements = [''begin'', ''insert 1'', ''insert 2''], released = 0, unhandled = []\<rparr>)"
    by (simp add: inserts_then_def client_query_def fresh_def)
  have r: "failing [''rollback''] [''begin'', ''insert 1'', ''insert 2''] ''rollback''
       = Rejected ''rollback failed''"
    by (simp add: failing_def)
  show ?thesis
    using transaction_rollback_reraises_original
      [of "failing [''rollback'']" fresh "inserts_then (Rejected ''boom'')" "''boom''", OF b w] b w r
    by simp
qed

text \<open>
  On every path on which the work callback is run (it fulfils or fails, and the commit or
  rollback statement succeeds or fails) the connection is handed back to the pool exactly
  once. The callback is any that does not itself hand the connection back.
\<close>

lemma transaction_releases_once_after_begin:
  assumes "drv (statements c) ''begin'' = Fulfilled"
    and "\<forall>s. released (snd (callback s)) = released s"
  shows "released (snd (transaction Fulfilled drv callback c)) = released c + 1"
proof -
  let ?c1 = "snd (client_query drv ''begin'' c)"
  obtain r c2 where cb: "callback ?c1 = (r, c2)"
    by (cases "callback ?c1")
  have "released ?c1 = released c"
    by (simp add: client_query_def)
  moreover from assms(2) cb have "released c2 = released ?c1"
    by (metis snd_conv)
  ultimately have rel: "released c2 = released c"
    by simp
  show ?thesis
  proof (cases r)
    case Fulfilled
    with cb have "try_catch drv callback ?c1 = (Fulfilled, snd (commit drv c2))"
      by (simp add: try_catch_fulfilled)
    with assms(1) rel show ?thesis
      by (simp add: transaction_def client_query_def release_def commit_released)
  next
    case (Rejected err)
    with cb have "try_catch drv callback ?c1 = (Rejected err, snd (rollback drv c2))"
      by (simp add: try_catch_rejected)
    with assms(1) rel show ?thesis
      by (simp add: transaction_def client_query_def release_def rollback_released)
  qed
qed

text \<open>
  C8. On every path the connection that was checked out should be handed back to the pool
  exactly once. At this input the pool hands out the connection and the driver rejects
  \<open>begin\<close>: \<open>await handle.query("begin")\<close> stands before the \<open>try\<close>, so the \<open>finally\<close> is
  never entered, the transaction fails with the driver's error, and the connection is not
  handed back.
\<close>

theorem transaction_begin_failure_leaks_connection:
  "transaction Fulfilled (failing [''begin'']) (inserts_then Fulfilled) fresh =
     (Rejected ''begin failed'',
      \<lparr>statements = [''begin''], released = 0, unhandled = []\<rparr>)"
  by (simp add: transaction_def client_query_def failing_def fresh_def)

section \<open>The compiler of main.ts is one pass from left to right\<close>

subsection \<open>Identifiers and placeholders\<close>

lemma ident_start_char: "ident_start c \<Longrightarrow> ident_char c"
  by (simp add: ident_char_def)

lemma dollar_not_ident [simp]: "\<not> ident_char CHR ''$''" "\<not> ident_start CHR ''$''"
  by (simp_all add: ident_char_def ident_start_def)

lemma matchAll_ident: "n \<in> set (matchAll s) \<Longrightarrow> is_ident n"
proof (induction s rule: matchAll.induct)
  case 1
  then show ?case by simp
next
  case (2 c cs)
  show ?case
  proof (cases "c = CHR ''$'' \<and> starts_ident cs")
    case True
    then obtain d ds where cs: "cs = d # ds" and d: "ident_start d"
      by (auto simp: starts_ident_def split: list.splits)
    have "is_ident (takeWhile ident_char cs)"
      using cs d by (auto simp: is_ident_def starts_ident_def ident_start_char dest: set_takeWhileD)
    with 2 True show ?thesis by auto
  next
    case False
    with 2 show ?thesis by auto
  qed
qed

lemma replaceAll_pattern_skip:
  "CHR ''$'' \<notin> set m \<Longrightarrow> replaceAll_pattern n r (m @ s) = m @ replaceAll_pattern n r s"
  by (induction m) auto

lemma substitute_skip:
  "CHR ''$'' \<notin> set m \<Longrightarrow> substitute f (m @ s) = m @ substitute f s"
  by (induction m) auto

lemma is_ident_takeWhile:
  assumes "is_ident n" "lookahead s"
  shows "takeWhile ident_char (n @ s) = n" "dropWhile ident_char (n @ s) = s"
  using assms
  by (auto simp: is_ident_def lookahead_def takeWhile_append dropWhile_append split: list.splits)

lemma take_eq_ident:
  assumes "is_ident n" "take (length n) cs = n" "lookahead (drop (length n) cs)"
  shows "takeWhile ident_char cs = n" "dropWhile ident_char cs = drop (length n) cs" "starts_ident cs"
proof -
  have cs: "cs = n @ drop (length n) cs"
    using assms(2) by (metis append_take_drop_id)
  show "takeWhile ident_char cs = n"
    using is_ident_takeWhile(1) [OF assms(1,3)] cs by metis
  show "dropWhile ident_char cs = drop (length n) cs"
    using is_ident_takeWhile(2) [OF assms(1,3)] cs by metis
  show "starts_ident cs"
    using assms(1) cs by (cases n) (auto simp: is_ident_def starts_ident_def split: list.splits)
qed

lemma takeWhile_ident_chars: "CHR ''$'' \<notin> set (takeWhile ident_char cs)"
  by (auto dest: set_takeWhileD)

lemma takeWhile_is_prefix:
  "take (length (takeWhile ident_char cs)) cs = takeWhile ident_char cs"
  "drop (length (takeWhile ident_char cs)) cs = dropWhile ident_char cs"
  by (metis append_eq_conv_conj takeWhile_dropWhile_id)+

lemma lookahead_dropWhile: "lookahead (dropWhile ident_char cs)"
proof (cases "dropWhile ident_char cs")
  case Nil
  show ?thesis unfolding Nil lookahead_def by simp
next
  case (Cons d ds)
  have "\<not> ident_char d"
    by (metis Cons hd_dropWhile list.distinct(1) list.sel(1))
  then show ?thesis unfolding Cons lookahead_def by simp
qed

text \<open>
  One \<open>replaceAll\<close> with the pattern of main.ts rewrites the placeholders of that name and
  nothing else.
\<close>

lemma replaceAll_pattern_substitute:
  assumes "is_ident n"
  shows "replaceAll_pattern n r s = substitute (\<lambda>m. if m = n then r else CHR ''$'' # m) s"
proof (induction "length s" arbitrary: s rule: less_induct)
  case less
  show ?case
  proof (cases s)
    case Nil
    then show ?thesis by simp
  next
    case (Cons c cs)
    let ?m = "takeWhile ident_char cs"
    have IH: "\<And>t. length t \<le> length cs \<Longrightarrow>
        replaceAll_pattern n r t = substitute (\<lambda>m. if m = n then r else CHR ''$'' # m) t"
      using less Cons by simp
    have IHd: "replaceAll_pattern n r (dropWhile ident_char cs)
        = substitute (\<lambda>m. if m = n then r else CHR ''$'' # m) (dropWhile ident_char cs)"
      by (rule IH) (rule length_dropWhile_le)
    show ?thesis
    proof (cases "c = CHR ''$'' \<and> starts_ident cs")
      case True
      show ?thesis
      proof (cases "?m = n")
        case same: True
        have "take (length n) cs = n" "drop (length n) cs = dropWhile ident_char cs"
          using takeWhile_is_prefix [of cs] same by simp_all
        with True same IHd lookahead_dropWhile [of cs] Cons show ?thesis by simp
      next
        case other: False
        have no: "\<not> (take (length n) cs = n \<and> lookahead (drop (length n) cs))"
          using take_eq_ident(1) [OF assms] other by blast
        have "replaceAll_pattern n r cs = ?m @ replaceAll_pattern n r (dropWhile ident_char cs)"
          using replaceAll_pattern_skip [OF takeWhile_ident_chars, of n r cs "dropWhile ident_char cs"]
          by simp
        with True other no IHd Cons show ?thesis by auto
      qed
    next
      case False
      have "\<not> (c = CHR ''$'' \<and> take (length n) cs = n \<and> lookahead (drop (length n) cs))"
        using False take_eq_ident(3) [OF assms] by blast
      with False IH [of cs] Cons show ?thesis by auto
    qed
  qed
qed

subsection \<open>A pass after a pass\<close>

lemma digit_facts: "d \<in> set ''0123456789'' \<Longrightarrow> d \<noteq> CHR ''$'' \<and> \<not> ident_start d"
  by (auto simp: ident_start_def)

lemma positional_D:
  assumes "positional x"
  obtains d ds where "x = CHR ''$'' # d # ds" "\<not> ident_start d" "CHR ''$'' \<notin> set (d # ds)"
proof -
  from assms obtain d ds where x: "x = CHR ''$'' # d # ds"
    and all: "list_all (\<lambda>d. d \<in> set ''0123456789'') (d # ds)"
    by (cases x; cases "tl x") (auto simp: positional_def)
  have "\<not> ident_start d"
    using all digit_facts [of d] by simp
  moreover have "CHR ''$'' \<notin> set (d # ds)"
    using all digit_facts unfolding list_all_iff by blast
  ultimately show ?thesis using that x by blast
qed

lemma lookahead_substitute:
  assumes "\<forall>m. \<exists>t. f m = CHR ''$'' # t" "lookahead s"
  shows "lookahead (substitute f s)"
proof (cases s)
  case Nil
  then show ?thesis by (simp add: lookahead_def)
next
  case (Cons c cs)
  show ?thesis
  proof (cases "c = CHR ''$'' \<and> starts_ident cs")
    case True
    from assms(1) obtain t where "f (takeWhile ident_char cs) = CHR ''$'' # t" by blast
    with True Cons show ?thesis by (simp add: lookahead_def)
  next
    case False
    with Cons assms(2) show ?thesis by (auto simp: lookahead_def)
  qed
qed

lemma not_starts_ident_substitute:
  assumes "\<forall>m. \<exists>t. f m = CHR ''$'' # t" "\<not> starts_ident s"
  shows "\<not> starts_ident (substitute f s)"
proof (cases s)
  case Nil
  then show ?thesis by (simp add: starts_ident_def)
next
  case (Cons c cs)
  show ?thesis
  proof (cases "c = CHR ''$'' \<and> starts_ident cs")
    case True
    from assms(1) obtain t where "f (takeWhile ident_char cs) = CHR ''$'' # t" by blast
    with True Cons show ?thesis by (simp add: starts_ident_def)
  next
    case False
    with Cons assms(2) show ?thesis by (auto simp: starts_ident_def)
  qed
qed

lemma is_ident_takeWhile_token: "starts_ident cs \<Longrightarrow> is_ident (takeWhile ident_char cs)"
  by (cases cs) (auto simp: is_ident_def starts_ident_def ident_start_char dest: set_takeWhileD)

text \<open>
  A second pass over the result of a first one finds the placeholders the first pass left
  as they were, and leaves the positional markers the first pass wrote.
\<close>

lemma substitute_substitute:
  assumes g: "\<forall>m. g m = CHR ''$'' # m \<or> positional (g m)"
  shows "substitute h (substitute g s)
       = substitute (\<lambda>m. if g m = CHR ''$'' # m then h m else g m) s"
proof (induction "length s" arbitrary: s rule: less_induct)
  case less
  have gd: "\<forall>m. \<exists>t. g m = CHR ''$'' # t"
  proof
    fix m
    from g have "g m = CHR ''$'' # m \<or> positional (g m)" by blast
    then show "\<exists>t. g m = CHR ''$'' # t"
      by (auto elim: positional_D)
  qed
  show ?case
  proof (cases s)
    case Nil
    then show ?thesis by simp
  next
    case (Cons c cs)
    let ?m = "takeWhile ident_char cs" and ?rest = "dropWhile ident_char cs"
    let ?k = "\<lambda>m. if g m = CHR ''$'' # m then h m else g m"
    have IH: "\<And>t. length t \<le> length cs \<Longrightarrow> substitute h (substitute g t) = substitute ?k t"
      using less Cons by simp
    have IHd: "substitute h (substitute g ?rest) = substitute ?k ?rest"
      by (rule IH) (rule length_dropWhile_le)
    show ?thesis
    proof (cases "c = CHR ''$'' \<and> starts_ident cs")
      case True
      have m: "is_ident ?m"
        using True by (simp add: is_ident_takeWhile_token)
      have la: "lookahead (substitute g ?rest)"
        using lookahead_substitute [OF gd lookahead_dropWhile] .
      show ?thesis
      proof (cases "g ?m = CHR ''$'' # ?m")
        case same: True
        have "starts_ident (?m @ substitute g ?rest)"
          using m by (cases ?m) (auto simp: is_ident_def starts_ident_def)
        then have "substitute h (CHR ''$'' # ?m @ substitute g ?rest)
            = h ?m @ substitute h (substitute g ?rest)"
          using is_ident_takeWhile [OF m la] by simp
        with True same IHd Cons show ?thesis by simp
      next
        case other: False
        with g have "positional (g ?m)" by blast
        then obtain d ds where gm: "g ?m = CHR ''$'' # d # ds"
          and d: "\<not> ident_start d" and nd: "CHR ''$'' \<notin> set (d # ds)"
          by (rule positional_D)
        have "substitute h ((CHR ''$'' # d # ds) @ substitute g ?rest)
            = CHR ''$'' # substitute h ((d # ds) @ substitute g ?rest)"
          using d by (simp add: starts_ident_def)
        also have "\<dots> = CHR ''$'' # (d # ds) @ substitute h (substitute g ?rest)"
          using substitute_skip [OF nd] by simp
        finally show ?thesis
          using True other IHd Cons gm by simp
      qed
    next
      case False
      show ?thesis
      proof (cases "c = CHR ''$''")
        case True
        with False have "\<not> starts_ident cs" by simp
        then have "\<not> starts_ident (substitute g cs)"
          using not_starts_ident_substitute [OF gd] by blast
        with True False IH [of cs] Cons show ?thesis by simp
      next
        case False
        with IH [of cs] Cons show ?thesis by simp
      qed
    qed
  qed
qed

lemma substitute_id: "substitute (\<lambda>m. CHR ''$'' # m) s = s"
proof (induction "length s" arbitrary: s rule: less_induct)
  case less
  show ?case
  proof (cases s)
    case Nil
    then show ?thesis by simp
  next
    case (Cons c cs)
    have "substitute (\<lambda>m. CHR ''$'' # m) cs = cs"
      using less Cons by simp
    moreover have "substitute (\<lambda>m. CHR ''$'' # m) (dropWhile ident_char cs) = dropWhile ident_char cs"
      using less Cons length_dropWhile_le [of ident_char cs] by simp
    ultimately show ?thesis using Cons by simp
  qed
qed

lemma substitute_cong:
  "(\<And>n. n \<in> set (matchAll s) \<Longrightarrow> f n = g n) \<Longrightarrow> substitute f s = substitute g s"
proof (induction "length s" arbitrary: s rule: less_induct)
  case less
  show ?case
  proof (cases s)
    case Nil
    then show ?thesis by simp
  next
    case (Cons c cs)
    show ?thesis
    proof (cases "c = CHR ''$'' \<and> starts_ident cs")
      case True
      have "substitute f (dropWhile ident_char cs) = substitute g (dropWhile ident_char cs)"
        using less.hyps [of "dropWhile ident_char cs"] less.prems Cons True
          length_dropWhile_le [of ident_char cs] by simp
      moreover have "f (takeWhile ident_char cs) = g (takeWhile ident_char cs)"
        using less.prems Cons True by simp
      ultimately show ?thesis using Cons True by simp
    next
      case False
      have "substitute f cs = substitute g cs"
        using less.hyps [of cs] less.prems Cons False by simp
      then show ?thesis using Cons False by auto
    qed
  qed
qed

subsection \<open>The set of names\<close>

lemma foldl_set_add:
  "foldl set_add acc xs = acc @ filter (\<lambda>y. y \<notin> set acc) (dedup xs)"
proof (induction xs arbitrary: acc)
  case Nil
  then show ?case by simp
next
  case (Cons x xs)
  show ?case
  proof (cases "x \<in> set acc")
    case True
    have "filter (\<lambda>y. y \<notin> set acc) (filter (\<lambda>y. y \<noteq> x) (dedup xs)) = filter (\<lambda>y. y \<notin> set acc) (dedup xs)"
      using True by (auto intro: filter_cong)
    with True Cons [of acc] show ?thesis by (simp add: set_add_def)
  next
    case False
    have "filter (\<lambda>y. y \<notin> set (acc @ [x])) (dedup xs) = filter (\<lambda>y. y \<notin> set acc) (filter (\<lambda>y. y \<noteq> x) (dedup xs))"
      by (auto intro: filter_cong)
    with False Cons [of "acc @ [x]"] show ?thesis by (simp add: set_add_def)
  qed
qed

lemma new_Set_dedup: "new_Set xs = dedup xs"
  by (simp add: new_Set_def foldl_set_add)

lemma set_dedup: "set (dedup xs) = set xs"
  by (induction xs) auto

lemma distinct_dedup: "distinct (dedup xs)"
  by (induction xs) auto

lemma set_new_Set: "set (new_Set xs) = set xs"
  by (simp add: new_Set_dedup set_dedup)

lemma distinct_new_Set: "distinct (new_Set xs)"
  by (simp add: new_Set_dedup distinct_dedup)

lemma find_filter_neq: "\<not> P x \<Longrightarrow> find P (filter (\<lambda>y. y \<noteq> x) ys) = find P ys"
  by (induction ys) auto

lemma find_new_Set: "find P (new_Set xs) = find P xs"
  unfolding new_Set_dedup
  by (induction xs) (auto simp: find_filter_neq)

lemma first_appearance_dedup:
  "sorted_wrt (\<lambda>a b. index_of xs a < index_of xs b) (dedup xs)"
proof (induction xs)
  case Nil
  then show ?case by simp
next
  case (Cons x xs)
  have "sorted_wrt (\<lambda>a b. index_of xs a < index_of xs b) (filter (\<lambda>y. y \<noteq> x) (dedup xs))"
    using Cons by (rule sorted_wrt_filter)
  then have "sorted_wrt (\<lambda>a b. index_of (x # xs) a < index_of (x # xs) b) (filter (\<lambda>y. y \<noteq> x) (dedup xs))"
    by (rule sorted_wrt_mono_rel [rotated]) auto
  then show ?case by auto
qed

lemma first_appearance_new_Set:
  "sorted_wrt (\<lambda>a b. index_of xs a < index_of xs b) (new_Set xs)"
  by (simp add: new_Set_dedup first_appearance_dedup)

subsection \<open>The loop\<close>

lemma push_pushed: "push paramArray v = paramArray @ pushed v"
  by (cases v) (simp_all add: push_def)

lemma show_nat_digits: "show_nat n \<noteq> [] \<and> list_all (\<lambda>d. d \<in> set ''0123456789'') (show_nat n)"
proof (induction n rule: show_nat.induct)
  case (1 n)
  have nth: "\<And>k. k < 10 \<Longrightarrow> ''0123456789'' ! k \<in> set ''0123456789''"
    by (rule nth_mem) simp
  show ?case
  proof (cases "n < 10")
    case True
    with nth [of n] show ?thesis by (subst (1 2) show_nat.simps) simp
  next
    case False
    have "n mod 10 < 10" by simp
    from nth [OF this] 1 False show ?thesis
      by (subst (1 2) show_nat.simps) simp
  qed
qed

lemma positional_show_nat: "positional (CHR ''$'' # show_nat n)"
  using show_nat_digits [of n] by (simp add: positional_def)

lemma named_loop_substitute:
  assumes "distinct rest" "\<forall>n \<in> set rest. is_ident n"
    and "\<forall>m. g m = CHR ''$'' # m \<or> positional (g m)"
    and "\<forall>m \<in> set rest. g m = CHR ''$'' # m"
  shows "named_loop args rest (substitute g q) pa idx =
     (case find (\<lambda>n. lookup args n = JSUndefined) rest of
        Some n \<Rightarrow> Inl (MissingArgumentError n)
      | None \<Rightarrow> Inr (substitute (\<lambda>m. if m \<in> set rest
                                     then CHR ''$'' # show_nat (idx + index_of rest m) else g m) q,
                    pa @ concat (map (\<lambda>n. pushed (lookup args n)) rest)))"
  using assms
proof (induction rest arbitrary: g pa idx)
  case Nil
  then show ?case by simp
next
  case (Cons n ns)
  show ?case
  proof (cases "lookup args n = JSUndefined")
    case True
    then show ?thesis by simp
  next
    case False
    let ?r = "CHR ''$'' # show_nat idx"
    let ?h = "\<lambda>m. if m = n then ?r else CHR ''$'' # m"
    let ?g' = "\<lambda>m. if g m = CHR ''$'' # m then ?h m else g m"
    have n: "is_ident n" using Cons.prems(2) by simp
    have step: "replaceAll_pattern n ?r (substitute g q) = substitute ?g' q"
      using replaceAll_pattern_substitute [OF n] substitute_substitute [OF Cons.prems(3)] by simp
    have g1: "\<forall>m. ?g' m = CHR ''$'' # m \<or> positional (?g' m)"
      using Cons.prems(3) positional_show_nat by auto
    have g2: "\<forall>m \<in> set ns. ?g' m = CHR ''$'' # m"
      using Cons.prems(1,4) by auto
    have d: "distinct ns" "\<forall>n \<in> set ns. is_ident n"
      using Cons.prems(1,2) by simp_all
    have funs: "(\<lambda>m. if m \<in> set ns then CHR ''$'' # show_nat (idx + 1 + index_of ns m) else ?g' m)
        = (\<lambda>m. if m \<in> set (n # ns) then CHR ''$'' # show_nat (idx + index_of (n # ns) m) else g m)"
      using Cons.prems(1,4) by (auto simp: fun_eq_iff)
    have "named_loop args (n # ns) (substitute g q) pa idx
        = named_loop args ns (substitute ?g' q) (pa @ pushed (lookup args n)) (idx + 1)"
      using False step by (simp add: push_pushed)
    also have "\<dots> = (case find (\<lambda>n. lookup args n = JSUndefined) ns of
        Some n \<Rightarrow> Inl (MissingArgumentError n)
      | None \<Rightarrow> Inr (substitute (\<lambda>m. if m \<in> set ns
                                     then CHR ''$'' # show_nat (idx + 1 + index_of ns m) else ?g' m) q,
                    (pa @ pushed (lookup args n)) @ concat (map (\<lambda>n. pushed (lookup args n)) ns)))"
      by (rule Cons.IH [OF d g1 g2])
    also have "\<dots> = (case find (\<lambda>n. lookup args n = JSUndefined) ns of
        Some n \<Rightarrow> Inl (MissingArgumentError n)
      | None \<Rightarrow> Inr (substitute (\<lambda>m. if m \<in> set (n # ns)
                                     then CHR ''$'' # show_nat (idx + index_of (n # ns) m) else g m) q,
                    pa @ concat (map (\<lambda>n. pushed (lookup args n)) (n # ns))))"
      unfolding funs by (simp split: option.split)
    finally show ?thesis
      using False by simp
  qed
qed

text \<open>
  \<open>named\<close> of main.ts fails with the first name that it reads as \<open>undefined\<close>, and
  otherwise returns the template
  rewritten in one pass, trimmed, with one parameter for each distinct name.
\<close>

lemma named_single_pass:
  "named query args =
     (case find (\<lambda>n. lookup args n = JSUndefined) (matchAll query) of
        Some n \<Rightarrow> Inl (MissingArgumentError n)
      | None \<Rightarrow> Inr \<lparr>preparedQuery = trim (substitute (marker (new_Set (matchAll query))) query),
                     params = concat (map (\<lambda>n. pushed (lookup args n)) (new_Set (matchAll query)))\<rparr>)"
proof -
  let ?names = "new_Set (matchAll query)"
  have "named_loop args ?names (substitute (\<lambda>m. CHR ''$'' # m) query) [] 1 =
     (case find (\<lambda>n. lookup args n = JSUndefined) ?names of
        Some n \<Rightarrow> Inl (MissingArgumentError n)
      | None \<Rightarrow> Inr (substitute (\<lambda>m. if m \<in> set ?names
                                     then CHR ''$'' # show_nat (1 + index_of ?names m) else CHR ''$'' # m) query,
                    [] @ concat (map (\<lambda>n. pushed (lookup args n)) ?names)))"
    by (rule named_loop_substitute) (auto simp: distinct_new_Set set_new_Set matchAll_ident)
  moreover have "substitute (\<lambda>m. if m \<in> set ?names
        then CHR ''$'' # show_nat (1 + index_of ?names m) else CHR ''$'' # m) query
      = substitute (marker ?names) query"
    by (rule substitute_cong) (simp add: set_new_Set marker_def)
  ultimately show ?thesis
    by (simp add: named_def substitute_id find_new_Set split: option.splits)
qed

subsection \<open>The property read\<close>

lemma Object_prototype_values: "Object_prototype n = Some v \<Longrightarrow> \<exists>s. v = JSObject s"
  by (auto simp: Object_prototype_def split: if_splits)

lemma lookup_undefined_iff:
  "lookup args n = JSUndefined \<longleftrightarrow>
     args n = Some JSUndefined \<or> (args n = None \<and> Object_prototype n = None)"
  by (auto simp: lookup_def split: option.splits dest: Object_prototype_values)

lemma not_missing_lookup: "\<not> missing args n \<Longrightarrow> lookup args n \<noteq> JSUndefined"
  by (auto simp: missing_def lookup_undefined_iff)

lemma lookup_array_own: "lookup args n = JSArray vs \<Longrightarrow> args n = Some (JSArray vs)"
  by (auto simp: lookup_def split: option.splits dest: Object_prototype_values)

section \<open>The compiler: missing arguments\<close>

text \<open>
  Compilation fails with \<open>MissingArgumentError n\<close> exactly when \<open>n\<close> is the first name, in the
  order in which the placeholders stand in the template, whose property read yields
  \<open>undefined\<close>: a name bound to \<open>undefined\<close>, or a name that is absent from the arguments and
  is no member of \<open>Object.prototype\<close>. It succeeds exactly when there is no such name, and a
  name bound to \<open>null\<close> is never the name of that failure.
\<close>

lemma named_fails_first_undefined:
  "(named query args = Inl (MissingArgumentError n)
      \<longleftrightarrow> find (\<lambda>m. args m = Some JSUndefined \<or> (args m = None \<and> Object_prototype m = None))
            (matchAll query) = Some n)
   \<and> ((\<exists>r. named query args = Inr r)
      \<longleftrightarrow> find (\<lambda>m. args m = Some JSUndefined \<or> (args m = None \<and> Object_prototype m = None))
            (matchAll query) = None)
   \<and> (args n = Some JSNull \<longrightarrow> named query args \<noteq> Inl (MissingArgumentError n))"
proof -
  let ?U = "\<lambda>m. args m = Some JSUndefined \<or> (args m = None \<and> Object_prototype m = None)"
  have U: "(\<lambda>m. lookup args m = JSUndefined) = ?U"
    by (simp add: fun_eq_iff lookup_undefined_iff)
  have a: "named query args = Inl (MissingArgumentError n) \<longleftrightarrow> find ?U (matchAll query) = Some n"
    unfolding U [symmetric] by (simp add: named_single_pass split: option.splits)
  have b: "(\<exists>r. named query args = Inr r) \<longleftrightarrow> find ?U (matchAll query) = None"
    unfolding U [symmetric] by (simp add: named_single_pass split: option.splits)
  have "named query args \<noteq> Inl (MissingArgumentError n)" if "args n = Some JSNull"
  proof -
    from that have "find ?U (matchAll query) \<noteq> Some n"
      by (auto simp: find_Some_iff)
    with a show ?thesis by simp
  qed
  with a b show ?thesis by blast
qed

lemma named_first_of_several_missing:
  "named ''select $a, $b, $c, $b'' [''a'' \<mapsto> JSNull] = Inl (MissingArgumentError ''b'')"
  by code_simp

text \<open>
  C2. A name that the template refers to and that is absent from the arguments should make
  compilation fail with \<open>MissingArgumentError\<close> of the first such name. With the empty
  argument object \<open>{}\<close>, \<open>toString\<close> is absent, yet \<open>select $toString\<close> compiles: the property
  read finds \<open>Object.prototype.toString\<close>, which is not \<open>undefined\<close>, and its text becomes the
  parameter. In \<open>select $constructor, $points\<close> the first absent name is \<open>constructor\<close>, yet
  the failure names \<open>points\<close>.
\<close>

theorem named_inherited_name_not_missing:
  "missing Map.empty ''toString''
   \<and> named ''select $toString'' Map.empty
       = Inr \<lparr>preparedQuery = ''select $1'',
              params = [PText ''function toString() { [native code] }'']\<rparr>
   \<and> find (missing Map.empty) (matchAll ''select $constructor, $points'') = Some ''constructor''
   \<and> named ''select $constructor, $points'' Map.empty = Inl (MissingArgumentError ''points'')"
  by code_simp

text \<open>The test \<open>missing argument\<close> of the repository.\<close>

lemma named_missing_offset:
  "named ''select * from entity limit $limit offset $offset'' [''limit'' \<mapsto> JSNumber 20]
     = Inl (MissingArgumentError ''offset'')"
  by code_simp

section \<open>The compiler: parameters and indices\<close>

lemma index_of_nth: "distinct xs \<Longrightarrow> i < length xs \<Longrightarrow> index_of xs (xs ! i) = i"
proof (induction xs arbitrary: i)
  case Nil
  then show ?case by simp
next
  case (Cons x xs)
  then show ?case by (cases i) auto
qed

lemma pushed_single: "v \<noteq> JSUndefined \<Longrightarrow> \<exists>p. pushed v = [p]"
  by (cases v) simp_all

lemma concat_singletons:
  "\<forall>x \<in> set xs. \<exists>p. f x = [p] \<Longrightarrow>
    length (concat (map f xs)) = length xs \<and> (\<forall>i < length xs. f (xs ! i) = [concat (map f xs) ! i])"
proof (induction xs)
  case Nil
  then show ?case by simp
next
  case (Cons x xs)
  then obtain p where p: "f x = [p]" by auto
  from Cons have IH: "length (concat (map f xs)) = length xs"
    "\<forall>i < length xs. f (xs ! i) = [concat (map f xs) ! i]" by auto
  show ?case
  proof (intro conjI allI impI)
    show "length (concat (map f (x # xs))) = length (x # xs)" using p IH by simp
    fix i assume "i < length (x # xs)"
    then show "f ((x # xs) ! i) = [concat (map f (x # xs)) ! i]"
      using p IH by (cases i) auto
  qed
qed

text \<open>
  C5. When every name of the template is supplied, compilation succeeds; with \<open>k\<close> the
  number of distinct names, there are exactly \<open>k\<close> parameters; the distinct names, in the
  order of their first appearance in the template, have the parameters in that order, the
  \<open>i\<close>-th parameter being the value of the \<open>i\<close>-th name; the marker of the \<open>i\<close>-th name is
  \<open>$i\<close>, counted from 1; and the text is the template with each placeholder rewritten to the
  marker of its name.
\<close>

theorem named_params_first_appearance:
  assumes "\<forall>n \<in> set (matchAll query). \<not> missing args n"
  shows "\<exists>r. named query args = Inr r
    \<and> length (params r) = card (set (matchAll query))
    \<and> length (new_Set (matchAll query)) = card (set (matchAll query))
    \<and> set (new_Set (matchAll query)) = set (matchAll query)
    \<and> sorted_wrt (\<lambda>a b. index_of (matchAll query) a < index_of (matchAll query) b)
         (new_Set (matchAll query))
    \<and> (\<forall>i < card (set (matchAll query)).
          push [] (lookup args (new_Set (matchAll query) ! i)) = [params r ! i]
        \<and> marker (new_Set (matchAll query)) (new_Set (matchAll query) ! i)
            = CHR ''$'' # show_nat (i + 1))
    \<and> preparedQuery r = trim (substitute (marker (new_Set (matchAll query))) query)"
proof -
  let ?names = "new_Set (matchAll query)"
  let ?r = "\<lparr>preparedQuery = trim (substitute (marker ?names) query),
             params = concat (map (\<lambda>n. pushed (lookup args n)) ?names)\<rparr>"
  have none: "find (\<lambda>n. lookup args n = JSUndefined) (matchAll query) = None"
    using assms by (simp add: find_None_iff not_missing_lookup)
  then have r: "named query args = Inr ?r"
    by (simp add: named_single_pass)
  have k: "length ?names = card (set (matchAll query))"
    using distinct_card [OF distinct_new_Set, of "matchAll query"] by (simp add: set_new_Set)
  have "\<forall>n \<in> set ?names. \<exists>p. pushed (lookup args n) = [p]"
    using assms by (auto simp: set_new_Set dest: not_missing_lookup intro: pushed_single)
  from concat_singletons [OF this]
  have len: "length (params ?r) = length ?names"
    and nth: "\<forall>i < length ?names. push [] (lookup args (?names ! i)) = [params ?r ! i]"
    by (simp_all add: push_pushed)
  have idx: "\<forall>i < length ?names. marker ?names (?names ! i) = CHR ''$'' # show_nat (i + 1)"
    by (simp add: marker_def index_of_nth distinct_new_Set)
  show ?thesis
    using r k len nth idx set_new_Set [of "matchAll query"] first_appearance_new_Set [of "matchAll query"]
    by (intro exI [of _ ?r]) simp
qed

theorem named_params_first_appearance_witness:
  "matchAll q_any = [''ids'', ''role'', ''ids'']
   \<and> \<not> missing a_any ''ids'' \<and> \<not> missing a_any ''role''
   \<and> card (set (matchAll q_any)) = 2
   \<and> new_Set (matchAll q_any) = [''ids'', ''role'']
   \<and> named q_any a_any = Inr \<lparr>preparedQuery = ''select * from users where id = any($1) and role = $2 and x = $1'',
         params = [PArray [JSNumber 10, JSNumber 20], PText ''user'']\<rparr>"
proof -
  have m: "matchAll q_any = [''ids'', ''role'', ''ids'']" by code_simp
  have a: "\<not> missing a_any ''ids''" "\<not> missing a_any ''role''"
    by (simp_all add: missing_def a_any_def)
  then have h: "\<forall>n \<in> set (matchAll q_any). \<not> missing a_any n"
    by (simp add: m)
  have c: "card (set (matchAll q_any)) = 2" by (simp add: m card_insert_if)
  have s: "new_Set (matchAll q_any) = [''ids'', ''role'']"
    by (simp add: m new_Set_def set_add_def)
  have v: "named q_any a_any = Inr \<lparr>preparedQuery = ''select * from users where id = any($1) and role = $2 and x = $1'',
         params = [PArray [JSNumber 10, JSNumber 20], PText ''user'']\<rparr>"
    by code_simp
  from named_params_first_appearance [OF h] obtain r where "named q_any a_any = Inr r"
    and "length (params r) = card (set (matchAll q_any))"
    by blast
  with m a c s v show ?thesis by simp
qed

section \<open>The compiler: dollar signs that start no placeholder\<close>

lemma matchAll_dollar:
  assumes "\<not> starts_ident b"
  shows "matchAll (a @ CHR ''$'' # b) = matchAll a @ matchAll b"
proof (induction "length a" arbitrary: a rule: less_induct)
  case less
  show ?case
  proof (cases a)
    case Nil
    with assms show ?thesis by simp
  next
    case (Cons c cs)
    have tw: "takeWhile ident_char (cs @ CHR ''$'' # b) = takeWhile ident_char cs"
      by (simp add: takeWhile_tail)
    have dw: "dropWhile ident_char (cs @ CHR ''$'' # b) = dropWhile ident_char cs @ CHR ''$'' # b"
      by (simp add: dropWhile_append3)
    have st: "starts_ident (cs @ CHR ''$'' # b) = starts_ident cs"
      by (cases cs) (simp_all add: starts_ident_def)
    have IH1: "matchAll (cs @ CHR ''$'' # b) = matchAll cs @ matchAll b"
      using less Cons by simp
    have IH2: "matchAll (dropWhile ident_char cs @ CHR ''$'' # b) = matchAll (dropWhile ident_char cs) @ matchAll b"
      using less Cons length_dropWhile_le [of ident_char cs] by simp
    show ?thesis
      using Cons tw dw st IH1 IH2 by simp
  qed
qed

lemma substitute_dollar:
  assumes "\<not> starts_ident b"
  shows "substitute f (a @ CHR ''$'' # b) = substitute f a @ CHR ''$'' # substitute f b"
proof (induction "length a" arbitrary: a rule: less_induct)
  case less
  show ?case
  proof (cases a)
    case Nil
    with assms show ?thesis by simp
  next
    case (Cons c cs)
    have tw: "takeWhile ident_char (cs @ CHR ''$'' # b) = takeWhile ident_char cs"
      by (simp add: takeWhile_tail)
    have dw: "dropWhile ident_char (cs @ CHR ''$'' # b) = dropWhile ident_char cs @ CHR ''$'' # b"
      by (simp add: dropWhile_append3)
    have st: "starts_ident (cs @ CHR ''$'' # b) = starts_ident cs"
      by (cases cs) (simp_all add: starts_ident_def)
    have IH1: "substitute f (cs @ CHR ''$'' # b) = substitute f cs @ CHR ''$'' # substitute f b"
      using less Cons by simp
    have IH2: "substitute f (dropWhile ident_char cs @ CHR ''$'' # b)
        = substitute f (dropWhile ident_char cs) @ CHR ''$'' # substitute f b"
      using less Cons length_dropWhile_le [of ident_char cs] by simp
    show ?thesis
      using Cons tw dw st IH1 IH2 by simp
  qed
qed

lemma replaceAll_pattern_dollar:
  assumes "is_ident n" "\<not> starts_ident y"
  shows "replaceAll_pattern n rep (x @ CHR ''$'' # y)
       = replaceAll_pattern n rep x @ CHR ''$'' # replaceAll_pattern n rep y"
  using substitute_dollar [OF assms(2)]
  by (simp add: replaceAll_pattern_substitute [OF assms(1)])

text \<open>
  C10. A dollar sign that no identifier-start character follows (\<open>b\<close> is what follows it:
  empty, or starting with a digit, a blank or anything else that is no letter and no
  underscore) adds no name to the placeholders found, and it stands in the compiled text
  where it stood, between the rewritten text before it and the rewritten text after it.
  Each replacement of the loop, for any name of the template and any replacement text,
  steps over such a dollar sign and leaves it where it is; so a marker \<open>$1\<close>, \<open>$2\<close>, ...
  that an earlier turn of the loop wrote is not replaced by a later one.
\<close>

theorem named_lone_dollar_untouched:
  assumes "\<not> starts_ident b" and "named (a @ CHR ''$'' # b) args = Inr r"
  shows "matchAll (a @ CHR ''$'' # b) = matchAll a @ matchAll b
    \<and> preparedQuery r =
        trim (substitute (marker (new_Set (matchAll a @ matchAll b))) a
              @ CHR ''$'' # substitute (marker (new_Set (matchAll a @ matchAll b))) b)
    \<and> (\<forall>n \<in> set (matchAll (a @ CHR ''$'' # b)). \<forall>rep x y. \<not> starts_ident y \<longrightarrow>
          replaceAll_pattern n rep (x @ CHR ''$'' # y)
            = replaceAll_pattern n rep x @ CHR ''$'' # replaceAll_pattern n rep y)"
proof -
  have m: "matchAll (a @ CHR ''$'' # b) = matchAll a @ matchAll b"
    using assms(1) by (rule matchAll_dollar)
  from assms(2) have "preparedQuery r
      = trim (substitute (marker (new_Set (matchAll (a @ CHR ''$'' # b)))) (a @ CHR ''$'' # b))"
    by (auto simp: named_single_pass split: option.splits)
  with m have t: "preparedQuery r =
        trim (substitute (marker (new_Set (matchAll a @ matchAll b))) a
              @ CHR ''$'' # substitute (marker (new_Set (matchAll a @ matchAll b))) b)"
    by (simp add: substitute_dollar [OF assms(1)])
  have "\<forall>n \<in> set (matchAll (a @ CHR ''$'' # b)). \<forall>rep x y. \<not> starts_ident y \<longrightarrow>
          replaceAll_pattern n rep (x @ CHR ''$'' # y)
            = replaceAll_pattern n rep x @ CHR ''$'' # replaceAll_pattern n rep y"
    using matchAll_ident replaceAll_pattern_dollar by blast
  with m t show ?thesis by blast
qed

theorem named_lone_dollar_untouched_witness:
  "\<not> starts_ident ''1, $tag from t where a = $ and b = $tag $''
   \<and> \<not> starts_ident []
   \<and> named ''select $1, $tag from t where a = $ and b = $tag $'' [''tag'' \<mapsto> JSString ''x'']
       = Inr \<lparr>preparedQuery = ''select $1, $1 from t where a = $ and b = $1 $'', params = [PText ''x'']\<rparr>
   \<and> matchAll ''select $1, $tag from t where a = $ and b = $tag $'' = [''tag'', ''tag'']
   \<and> matchAll ''select $1, $tag from t where a = $ and b = $tag '' = [''tag'', ''tag'']
   \<and> replaceAll_pattern ''tag'' ''$2'' ''select $1, $tag'' = ''select $1, $2''"
proof -
  let ?args = "[''tag'' \<mapsto> JSString ''x'']"
  let ?r = "\<lparr>preparedQuery = ''select $1, $1 from t where a = $ and b = $1 $'', params = [PText ''x'']\<rparr>"
  have s1: "\<not> starts_ident ''1, $tag from t where a = $ and b = $tag $''"
    by (simp add: starts_ident_def ident_start_def)
  have s2: "\<not> starts_ident []"
    by (simp add: starts_ident_def)
  have s3: "\<not> starts_ident ''1, $tag''"
    by (simp add: starts_ident_def ident_start_def)
  have v1: "named (''select '' @ CHR ''$'' # ''1, $tag from t where a = $ and b = $tag $'') ?args = Inr ?r"
    by code_simp
  have v2: "named (''select $1, $tag from t where a = $ and b = $tag '' @ CHR ''$'' # []) ?args = Inr ?r"
    by code_simp
  have m1: "matchAll ''select '' = []"
    and m2: "matchAll ''1, $tag from t where a = $ and b = $tag $'' = [''tag'', ''tag'']"
    and m3: "matchAll ''select $1, $tag from t where a = $ and b = $tag '' = [''tag'', ''tag'']"
    by code_simp+
  have e1: "replaceAll_pattern ''tag'' ''$2'' ''select '' = ''select ''"
    and e2: "replaceAll_pattern ''tag'' ''$2'' ''1, $tag'' = ''1, $2''"
    by code_simp+
  note t1 = named_lone_dollar_untouched [OF s1 v1]
  from t1 m1 m2
  have a: "matchAll (''select '' @ CHR ''$'' # ''1, $tag from t where a = $ and b = $tag $'') = [''tag'', ''tag'']"
    by simp
  from t1 a s3 have "replaceAll_pattern ''tag'' ''$2'' (''select '' @ CHR ''$'' # ''1, $tag'')
      = replaceAll_pattern ''tag'' ''$2'' ''select '' @ CHR ''$'' # replaceAll_pattern ''tag'' ''$2'' ''1, $tag''"
    by simp
  with e1 e2 have b: "replaceAll_pattern ''tag'' ''$2'' ''select $1, $tag'' = ''select $1, $2''"
    by simp
  from named_lone_dollar_untouched [OF s2 v2] m3
  have "matchAll (''select $1, $tag from t where a = $ and b = $tag '' @ CHR ''$'' # []) = [''tag'', ''tag'']"
    by simp
  with a b show ?thesis using s1 s2 v1 m3 by simp
qed

section \<open>The compiler: how a value becomes a parameter\<close>

lemma named_params:
  assumes "named query args = Inr r"
  shows "params r = concat (map (\<lambda>n. pushed (lookup args n)) (new_Set (matchAll query)))"
    and "\<forall>n \<in> set (matchAll query). lookup args n \<noteq> JSUndefined"
proof -
  from assms have none: "find (\<lambda>n. lookup args n = JSUndefined) (matchAll query) = None"
    by (auto simp: named_single_pass split: option.splits)
  with assms show "params r = concat (map (\<lambda>n. pushed (lookup args n)) (new_Set (matchAll query)))"
    by (auto simp: named_single_pass)
  from none show "\<forall>n \<in> set (matchAll query). lookup args n \<noteq> JSUndefined"
    by (simp add: find_None_iff)
qed

text \<open>
  C6, as the code has it. In a compiled query the parameter of the \<open>i\<close>-th distinct name is:
  null for null; the number itself for a number; the ISO-8601 string for a date; the array
  itself for an array; the \<open>toString()\<close> text for a string or any other value.
\<close>

theorem named_marshalling:
  assumes "named query args = Inr r" and "i < length (new_Set (matchAll query))"
  shows "(case lookup args (new_Set (matchAll query) ! i) of
            JSUndefined \<Rightarrow> False
          | JSNull \<Rightarrow> params r ! i = PNull
          | JSNumber n \<Rightarrow> params r ! i = PNumber n
          | JSString s \<Rightarrow> params r ! i = PText s
          | JSDate d \<Rightarrow> params r ! i = PText d
          | JSArray vs \<Rightarrow> params r ! i = PArray vs
          | JSObject s \<Rightarrow> params r ! i = PText s)"
proof -
  let ?names = "new_Set (matchAll query)"
  let ?v = "lookup args (?names ! i)"
  have def: "\<forall>n \<in> set ?names. lookup args n \<noteq> JSUndefined"
    using named_params(2) [OF assms(1)] by (simp add: set_new_Set)
  then have v: "?v \<noteq> JSUndefined"
    using assms(2) by simp
  have "\<forall>n \<in> set ?names. \<exists>p. pushed (lookup args n) = [p]"
    using def by (auto intro: pushed_single)
  from concat_singletons [OF this] assms(2) named_params(1) [OF assms(1)]
  have "pushed ?v = [params r ! i]" by simp
  with v show ?thesis
    by (cases ?v) simp_all
qed

theorem named_marshalling_witness:
  "named q_types a_types = Inr r_types
   \<and> new_Set (matchAll q_types) = [''a'', ''b'', ''c'', ''d'', ''e'', ''f'']
   \<and> lookup a_types ''b'' = JSNumber 30
   \<and> params r_types ! 1 = PNumber 30
   \<and> lookup a_types ''c'' = JSDate ''2024-05-06T07:08:09.000Z''
   \<and> params r_types ! 2 = PText ''2024-05-06T07:08:09.000Z''"
proof -
  have n: "named q_types a_types = Inr r_types"
    by code_simp
  have s: "new_Set (matchAll q_types) = [''a'', ''b'', ''c'', ''d'', ''e'', ''f'']"
    by code_simp
  have l: "lookup a_types ''b'' = JSNumber 30" "lookup a_types ''c'' = JSDate ''2024-05-06T07:08:09.000Z''"
    by (simp_all add: lookup_def a_types_def)
  have i: "1 < length (new_Set (matchAll q_types))" "2 < length (new_Set (matchAll q_types))"
    by (simp_all add: s)
  from named_marshalling [OF n i(1)] s l have "params r_types ! 1 = PNumber 30"
    by simp
  moreover from named_marshalling [OF n i(2)] s l
  have "params r_types ! 2 = PText ''2024-05-06T07:08:09.000Z''"
    by simp
  ultimately show ?thesis using n s l by simp
qed

text \<open>
  C6 as it is stated has a number become its textual representation. In main.ts the number
  30 of the repository's test of type casts stays a number.
\<close>

theorem named_number_not_textual:
  "named ''select u.* from users u where u.age = $age::numeric'' [''age'' \<mapsto> JSNumber 30]
     = Inr \<lparr>preparedQuery = ''select u.* from users u where u.age = $1::numeric'',
            params = [PNumber 30]\<rparr>
   \<and> textual (JSNumber 30) = [PText ''30'']
   \<and> [PNumber 30] \<noteq> [PText ''30'']"
  by code_simp

text \<open>\<open>named\<close> of database.ts has the parameters that C6 states, numbers as text.\<close>

lemma database_push_textual: "database_push paramArray v = paramArray @ textual v"
  by (cases v) (simp_all add: database_push_def)

lemma database_named_loop_params:
  "database_named_loop args rest q pa idx = Inr (q', pa') \<Longrightarrow>
     pa' = pa @ concat (map (\<lambda>n. textual (lookup args n)) rest)"
proof (induction rest arbitrary: q pa idx)
  case Nil
  then show ?case by simp
next
  case (Cons n ns)
  from Cons.prems have l: "lookup args n \<noteq> JSUndefined"
    by (auto split: if_splits)
  with Cons.prems have "database_named_loop args ns
      (replaceAll_literal n (CHR ''$'' # show_nat idx) q) (pa @ textual (lookup args n)) (idx + 1)
      = Inr (q', pa')"
    by (simp add: database_push_textual)
  from Cons.IH [OF this] show ?case by simp
qed

lemma database_named_params:
  assumes "database_named query args = Inr r"
  shows "params r = concat (map (\<lambda>n. textual (lookup args n)) (new_Set (matchAll query)))"
proof (cases "database_named_loop args (new_Set (matchAll query)) query [] 1")
  case (Inl e)
  with assms show ?thesis by (simp add: database_named_def)
next
  case (Inr qp)
  obtain q' pa where qp: "qp = (q', pa)" by (cases qp)
  from Inr qp assms have r: "params r = pa"
    by (auto simp: database_named_def)
  from database_named_loop_params [of args _ query "[]" 1 q' pa] Inr qp r
  show ?thesis by simp
qed

section \<open>The compiler: the shapes of parameters\<close>

lemma pushed_shapes:
  "p \<in> set (pushed v) \<Longrightarrow>
     p = PNull \<or> (\<exists>s. p = PText s) \<or> (\<exists>n. p = PNumber n) \<or> (\<exists>vs. p = PArray vs \<and> v = JSArray vs)"
  by (cases v) auto

text \<open>
  C9, as the code has it. Every parameter of a compiled query is null, a text, a number, or
  an array that is the caller's array argument of some name of the template, pushed as it
  is. So when every array the caller supplies holds only text or only numbers, every
  parameter has one of the five shapes.
\<close>

theorem named_param_shapes:
  assumes "named query args = Inr r"
  shows "(\<forall>p \<in> set (params r).
            p = PNull \<or> (\<exists>s. p = PText s) \<or> (\<exists>n. p = PNumber n)
            \<or> (\<exists>vs. p = PArray vs \<and> (\<exists>n \<in> set (matchAll query). args n = Some (JSArray vs))))
       \<and> ((\<forall>n \<in> set (matchAll query). \<forall>vs. args n = Some (JSArray vs)
                \<longrightarrow> list_all is_text vs \<or> list_all is_numeric vs)
            \<longrightarrow> list_all permitted (params r))"
proof -
  let ?names = "new_Set (matchAll query)"
  have shape: "p = PNull \<or> (\<exists>s. p = PText s) \<or> (\<exists>n. p = PNumber n)
      \<or> (\<exists>vs. p = PArray vs \<and> (\<exists>n \<in> set (matchAll query). args n = Some (JSArray vs)))"
    if "p \<in> set (params r)" for p
  proof -
    from that named_params(1) [OF assms] obtain n where n: "n \<in> set ?names"
      and p: "p \<in> set (pushed (lookup args n))"
      by auto
    from pushed_shapes [OF p] show ?thesis
    proof (elim disjE exE conjE)
      fix vs assume "p = PArray vs" "lookup args n = JSArray vs"
      moreover from this have "args n = Some (JSArray vs)"
        by (simp add: lookup_array_own)
      ultimately show ?thesis using n by (auto simp: set_new_Set)
    qed auto
  qed
  have "list_all permitted (params r)"
    if h: "\<forall>n \<in> set (matchAll query). \<forall>vs. args n = Some (JSArray vs)
                \<longrightarrow> list_all is_text vs \<or> list_all is_numeric vs"
  proof -
    have "permitted p" if "p \<in> set (params r)" for p
      using shape [OF that] h by auto
    then show ?thesis by (simp add: list_all_iff)
  qed
  with shape show ?thesis by blast
qed

theorem named_param_shapes_witness:
  "named q_types a_types = Inr r_types
   \<and> matchAll q_types = [''a'', ''b'', ''c'', ''d'', ''e'', ''f'']
   \<and> a_types ''d'' = Some (JSArray [JSNumber 3, JSNumber 4])
   \<and> list_all is_numeric [JSNumber 3, JSNumber 4]
   \<and> list_all permitted (params r_types)
   \<and> PArray [JSNumber 3, JSNumber 4] \<in> set (params r_types)"
proof -
  have n: "named q_types a_types = Inr r_types"
    by code_simp
  have m: "matchAll q_types = [''a'', ''b'', ''c'', ''d'', ''e'', ''f'']"
    by code_simp
  have d: "a_types ''d'' = Some (JSArray [JSNumber 3, JSNumber 4])"
    by (simp add: a_types_def)
  have h: "\<forall>n \<in> set (matchAll q_types). \<forall>vs. a_types n = Some (JSArray vs)
                \<longrightarrow> list_all is_text vs \<or> list_all is_numeric vs"
    by (simp add: m a_types_def)
  from named_param_shapes [OF n] h have "list_all permitted (params r_types)"
    by blast
  moreover have "PArray [JSNumber 3, JSNumber 4] \<in> set (params r_types)"
    by (simp add: r_types_def)
  ultimately show ?thesis using n m d by simp
qed

text \<open>
  C9 as it is stated fails on an array that holds a date and null: it is pushed as it is, an
  array of neither text nor numbers.
\<close>

theorem named_param_shapes_counterexample:
  "named ''select * from t where d = any($ds)'' [''ds'' \<mapsto> JSArray [JSDate ''2024-05-06T07:08:09.000Z'', JSNull]]
     = Inr \<lparr>preparedQuery = ''select * from t where d = any($1)'',
            params = [PArray [JSDate ''2024-05-06T07:08:09.000Z'', JSNull]]\<rparr>
   \<and> \<not> permitted (PArray [JSDate ''2024-05-06T07:08:09.000Z'', JSNull])"
  by code_simp

section \<open>The compiler of database.ts\<close>

text \<open>
  C3. The template of the repository's test of repeated parameters, with
  \<open>{id: 300, name: "admin", created_at: T}\<close>: \<open>named\<close> of database.ts returns the text of the
  specification, the name \<open>created_at\<close> with the one index 3 and one parameter, but the number 300 as
  the text \<open>"300"\<close>, where the specification and the test have the number 300.
\<close>

theorem database_named_repeated_params:
  "database_named
     ''insert into record (id, name, created_at, updated_at) values ($id, $name, $created_at, $created_at)''
     [''id'' \<mapsto> JSNumber 300, ''name'' \<mapsto> JSString ''admin'', ''created_at'' \<mapsto> JSDate T]
   = Inr \<lparr>preparedQuery =
            ''insert into record (id, name, created_at, updated_at) values ($1, $2, $3, $3)'',
          params = [PText ''300'', PText ''admin'', PText T]\<rparr>"
  by code_simp

text \<open>\<open>named\<close> of main.ts returns what C3 states.\<close>

lemma named_repeated_params:
  "named
     ''insert into record (id, name, created_at, updated_at) values ($id, $name, $created_at, $created_at)''
     [''id'' \<mapsto> JSNumber 300, ''name'' \<mapsto> JSString ''admin'', ''created_at'' \<mapsto> JSDate T]
   = Inr \<lparr>preparedQuery =
            ''insert into record (id, name, created_at, updated_at) values ($1, $2, $3, $3)'',
          params = [PNumber 300, PText ''admin'', PText T]\<rparr>"
  by code_simp

text \<open>
  C4. A template with \<open>$country\<close> and then \<open>$country_code\<close>, both supplied: \<open>named\<close> of
  database.ts replaces \<open>$country\<close> inside \<open>$country_code\<close> as well, so the second placeholder
  becomes \<open>$1_code\<close> and no \<open>$2\<close> stands in the text for the second parameter.
\<close>

theorem database_named_cross_substitution:
  "database_named ''select * from t where country = $country and code = $country_code''
     [''country'' \<mapsto> JSString ''US'', ''country_code'' \<mapsto> JSString ''US1'']
   = Inr \<lparr>preparedQuery = ''select * from t where country = $1 and code = $1_code'',
          params = [PText ''US'', PText ''US1'']\<rparr>"
  by code_simp

text \<open>
  \<open>named\<close> of main.ts does what C4 states: at this template, and at every template, since a
  name is replaced where a character outside the identifier characters or the end follows
  it, and is left where an identifier character follows it.
\<close>

lemma replaceAll_pattern_boundary:
  assumes "is_ident n"
  shows "lookahead s \<Longrightarrow>
           replaceAll_pattern n r (CHR ''$'' # n @ s) = r @ replaceAll_pattern n r s"
    and "ident_char c \<Longrightarrow>
           replaceAll_pattern n r (CHR ''$'' # n @ c # s) = CHR ''$'' # n @ replaceAll_pattern n r (c # s)"
proof -
  show "replaceAll_pattern n r (CHR ''$'' # n @ s) = r @ replaceAll_pattern n r s" if "lookahead s"
    using that by simp
  have "CHR ''$'' \<notin> set n"
    using assms by (auto simp: is_ident_def)
  then show "replaceAll_pattern n r (CHR ''$'' # n @ c # s) = CHR ''$'' # n @ replaceAll_pattern n r (c # s)"
    if "ident_char c"
    using that replaceAll_pattern_skip [of n n r "c # s"] by (simp add: lookahead_def)
qed

lemma named_boundary_aware:
  "named ''select * from t where country = $country and code = $country_code''
     [''country'' \<mapsto> JSString ''US'', ''country_code'' \<mapsto> JSString ''US1'']
   = Inr \<lparr>preparedQuery = ''select * from t where country = $1 and code = $2'',
          params = [PText ''US'', PText ''US1'']\<rparr>"
  by code_simp

end
